theory Spec2Isabelle
  imports Main "HOL-Library.Word"
begin

unbundle bit_operations_syntax

section \<open>Data model of the query interface (genomicsdb.h)\<close>

subsection \<open>Query ranges and the full-scan default\<close>

text \<open>
  \<^verbatim>\<open>typedef std::vector<std::pair<int64_t, int64_t>> genomicsdb_ranges_t;\<close>
  The header exists in two versions. The earlier one defines
  \<^verbatim>\<open>#define SCAN_FULL {{0, INT64_MAX}}\<close> and uses it as the default of both the column
  and the row ranges of the query functions; the current one defines
  \<^verbatim>\<open>#define SCAN_FULL {{0, INT64_MAX-1}}\<close> and uses it as the default of the column
  ranges only (the row ranges default to \<^verbatim>\<open>{}\<close>).
\<close>

type_synonym int64_t = "64 word"
type_synonym genomicsdb_ranges_t = "(int64_t \<times> int64_t) list"

definition INT64_MAX :: int64_t where
  "INT64_MAX = 0x7FFFFFFFFFFFFFFF"

definition SCAN_FULL_earlier :: genomicsdb_ranges_t where
  "SCAN_FULL_earlier = [(0, INT64_MAX)]"

definition SCAN_FULL :: genomicsdb_ranges_t where
  "SCAN_FULL = [(0, INT64_MAX - 1)]"

text \<open>The mathematical reading of a range list: the signed value of each bound.\<close>

definition ranges_denote :: "genomicsdb_ranges_t \<Rightarrow> (int \<times> int) list" where
  "ranges_denote rs = map (\<lambda>(lo, hi). (sint lo, sint hi)) rs"

subsection \<open>Field values and their typed accessors\<close>

text \<open>
  \<^verbatim>\<open>struct genomic_field_t { std::string name; const void* ptr; size_t num_elements; ... }\<close>
  The untyped pointer is modelled by the memory it points to, one byte per address
  counted from \<^verbatim>\<open>ptr\<close>. The accessors reinterpret that memory: \<^verbatim>\<open>int\<close> and
  \<^verbatim>\<open>float\<close> elements are four bytes wide (a float is kept as its bit pattern),
  \<^verbatim>\<open>char\<close> elements one byte, and the bytes of an element are assembled in the
  little-endian order of the hosts the library is built for.
\<close>

record genomic_field_t =
  name :: string
  ptr :: "nat \<Rightarrow> 8 word"
  num_elements :: "64 word"

datatype exn = GenomicsDBException string

text \<open>\<^verbatim>\<open>std::to_string\<close> on an unsigned integer: its decimal digits.\<close>

definition digit_char :: "nat \<Rightarrow> char" where
  "digit_char d = ''0123456789'' ! d"

function to_string :: "nat \<Rightarrow> string" where
  "to_string n = (if n < 10 then [digit_char n] else to_string (n div 10) @ [digit_char (n mod 10)])"
  by pat_completeness auto
termination
  by (relation "measure id") auto

definition check_offset :: "genomic_field_t \<Rightarrow> 64 word \<Rightarrow> exn + unit" where
  "check_offset f offset =
     (if offset \<ge> num_elements f
      then Inl (GenomicsDBException
             (''Genomic Field='' @ name f @ '' offset='' @ to_string (unat offset)
              @ '' greater than number of elements''))
      else Inr ())"

definition read32 :: "(nat \<Rightarrow> 8 word) \<Rightarrow> nat \<Rightarrow> 32 word" where
  "read32 mem a =
     ucast (mem a) OR push_bit 8 (ucast (mem (a + 1)))
       OR push_bit 16 (ucast (mem (a + 2))) OR push_bit 24 (ucast (mem (a + 3)))"

definition int_value_at :: "genomic_field_t \<Rightarrow> 64 word \<Rightarrow> exn + 32 word" where
  "int_value_at f offset =
     (case check_offset f offset of
        Inl e \<Rightarrow> Inl e
      | Inr _ \<Rightarrow> Inr (read32 (ptr f) (4 * unat offset)))"

definition float_value_at :: "genomic_field_t \<Rightarrow> 64 word \<Rightarrow> exn + 32 word" where
  "float_value_at f offset =
     (case check_offset f offset of
        Inl e \<Rightarrow> Inl e
      | Inr _ \<Rightarrow> Inr (read32 (ptr f) (4 * unat offset)))"

definition char_value_at :: "genomic_field_t \<Rightarrow> 64 word \<Rightarrow> exn + 8 word" where
  "char_value_at f offset =
     (case check_offset f offset of
        Inl e \<Rightarrow> Inl e
      | Inr _ \<Rightarrow> Inr (ptr f (unat offset)))"

text \<open>The text of the exception that \<open>check_offset\<close> raises for a field and an offset.\<close>

definition offset_message :: "genomic_field_t \<Rightarrow> 64 word \<Rightarrow> string" where
  "offset_message f offset =
     ''Genomic Field='' @ name f @ '' offset='' @ to_string (unat offset)
       @ '' greater than number of elements''"

section \<open>The PLINK/BGEN emitter (class GenomicsDBPlinkProcessor)\<close>

subsection \<open>Emitter state\<close>

text \<open>
  The members of the class that the modelled functions read or write. A file opened for
  output is the list of the bytes written to it so far; \<^verbatim>\<open>char\<close> is a byte,
  \<^verbatim>\<open>int\<close> and \<^verbatim>\<open>int32_t\<close> are 32-bit words. The trace lines sent to
  \<^verbatim>\<open>std::cout\<close> are not part of the state.
\<close>

type_synonym byte = "8 word"

record plink_state =
  compression :: "32 word"
  bed_file :: "byte list"
  bgen_file :: "byte list"
  bed_buf :: byte
  bed_buf_state :: byte
  min_ploidy :: byte
  max_ploidy :: byte
  bgen_gt_size :: "32 word"
  codec_buf :: "byte list"

text \<open>
  \<^verbatim>\<open>file.write((char*)&v, 4)\<close> on a 32-bit value, and on the first four bytes of a
  \<^verbatim>\<open>size_t\<close>: the four low-order bytes, least significant first (little-endian host).
\<close>

definition le32 :: "32 word \<Rightarrow> byte list" where
  "le32 w = [ucast w, ucast (drop_bit 8 w), ucast (drop_bit 16 w), ucast (drop_bit 24 w)]"

definition from_le32 :: "byte list \<Rightarrow> 32 word" where
  "from_le32 bs =
     ucast (bs ! 0) OR push_bit 8 (ucast (bs ! 1))
       OR push_bit 16 (ucast (bs ! 2)) OR push_bit 24 (ucast (bs ! 3))"

subsection \<open>Construction\<close>

text \<open>
  The default member initialisers: \<^verbatim>\<open>compression = 0\<close>, \<^verbatim>\<open>bed_buf = 0\<close>,
  \<^verbatim>\<open>bed_buf_state = 0\<close>, an empty \<^verbatim>\<open>codec_buf\<close>. The members
  \<^verbatim>\<open>min_ploidy\<close>, \<^verbatim>\<open>max_ploidy\<close> and \<^verbatim>\<open>bgen_gt_size\<close> have no initialiser;
  their indeterminate values are parameters.
\<close>

definition member_defaults :: "byte \<Rightarrow> byte \<Rightarrow> 32 word \<Rightarrow> plink_state" where
  "member_defaults mn mx gs =
     \<lparr>compression = 0, bed_file = [], bgen_file = [], bed_buf = 0, bed_buf_state = 0,
      min_ploidy = mn, max_ploidy = mx, bgen_gt_size = gs, codec_buf = []\<rparr>"

text \<open>
  The constructor body. Both files are opened with \<^verbatim>\<open>std::ios::out\<close>, which
  truncates them, and are then written in the order of the source.
\<close>

definition GenomicsDBPlinkProcessor :: "plink_state \<Rightarrow> plink_state" where
  "GenomicsDBPlinkProcessor s =
     (let magic_numbers = [0x6c, 0x1b, 0x01];
          bed = [] @ magic_numbers;
          zero = 0;
          offset = 20;
          bgen = [] @ le32 offset;
          bgen = bgen @ le32 offset;
          bgen = bgen @ le32 zero;
          bgen = bgen @ le32 zero;
          bgen_magic_numbers = [of_char CHR ''b'', of_char CHR ''g'', of_char CHR ''e'', of_char CHR ''n''];
          bgen = bgen @ bgen_magic_numbers;
          flags = 0x80000008;
          flags = flags OR compression s;
          bgen = bgen @ le32 flags
      in s\<lparr>bed_file := bed, bgen_file := bgen\<rparr>)"

subsection \<open>BED genotype packing\<close>

text \<open>
  \<^verbatim>\<open>bed_buf += x << bed_buf_state * 2; ++bed_buf_state %= 4;\<close>
  The sum is computed in \<^verbatim>\<open>int\<close> and stored back into a \<^verbatim>\<open>char\<close>, which keeps its
  low eight bits: addition and shift on \<open>8 word\<close>. The counter only ever holds 0 to 3.
\<close>

definition flush_to_bed :: "plink_state \<Rightarrow> plink_state" where
  "flush_to_bed s =
     (if bed_buf_state s \<noteq> 0
      then s\<lparr>bed_file := bed_file s @ [bed_buf s], bed_buf := 0, bed_buf_state := 0\<rparr>
      else s)"

definition write_to_bed :: "plink_state \<Rightarrow> byte \<Rightarrow> plink_state" where
  "write_to_bed s x =
     (let buf = bed_buf s + push_bit (unat (bed_buf_state s) * 2) x;
          st = (bed_buf_state s + 1) mod 4
      in if st = 0
         then s\<lparr>bed_file := bed_file s @ [buf], bed_buf := 0, bed_buf_state := st\<rparr>
         else s\<lparr>bed_buf := buf, bed_buf_state := st\<rparr>)"

text \<open>
  The reader's side of the BED layout, from the format description (four 2-bit codes per
  byte, the first in the two low-order bits): the packing of a whole row, and the
  unpacking of its bytes.
\<close>

fun bed_pack_spec :: "byte list \<Rightarrow> byte list" where
  "bed_pack_spec (a # b # c # d # xs) =
     (a OR push_bit 2 b OR push_bit 4 c OR push_bit 6 d) # bed_pack_spec xs"
| "bed_pack_spec [a, b, c] = [a OR push_bit 2 b OR push_bit 4 c]"
| "bed_pack_spec [a, b] = [a OR push_bit 2 b]"
| "bed_pack_spec [a] = [a]"
| "bed_pack_spec [] = []"

definition bed_unpack_byte :: "byte \<Rightarrow> byte list" where
  "bed_unpack_byte b = [b AND 3, drop_bit 2 b AND 3, drop_bit 4 b AND 3, drop_bit 6 b AND 3]"

definition bed_unpack_spec :: "byte list \<Rightarrow> byte list" where
  "bed_unpack_spec bs = concat (map bed_unpack_byte bs)"

subsection \<open>Enumeration of BGEN probability slots\<close>

text \<open>
  The callback \<^verbatim>\<open>std::function<void(const std::vector<int>&, int)>\<close> acts on state
  captured by reference; it is modelled as a function that transforms that state.
  \<open>record_call\<close> is the callback that logs its arguments. The \<^verbatim>\<open>int\<close> counters
  are modelled as unbounded integers.
\<close>

type_synonym 's callback = "int list \<Rightarrow> int \<Rightarrow> 's \<Rightarrow> 's"

definition record_call :: "((int list \<times> int) list) callback" where
  "record_call v ind calls = calls @ [(v, ind)]"

datatype error = LengthError | OutOfBounds

text \<open>
  \<^verbatim>\<open>for(int j = 0; j < limit; j++) callback({i, j}, ++ind);\<close> inside
  \<^verbatim>\<open>for(int i = 0; i < ploidy; i++)\<close>. The loop state is \<open>(ind, s)\<close>.
\<close>

function phased_for_j :: "int \<Rightarrow> 's callback \<Rightarrow> int \<Rightarrow> int \<Rightarrow> int \<times> 's \<Rightarrow> int \<times> 's" where
  "phased_for_j limit callback i j (ind, s) =
     (if j < limit
      then phased_for_j limit callback i (j + 1) (ind + 1, callback [i, j] (ind + 1) s)
      else (ind, s))"
  by pat_completeness auto
termination
  by (relation "measure (\<lambda>(limit, callback, i, j, st). nat (limit - j))") auto

function phased_for_i :: "int \<Rightarrow> int \<Rightarrow> 's callback \<Rightarrow> int \<Rightarrow> int \<times> 's \<Rightarrow> int \<times> 's" where
  "phased_for_i ploidy limit callback i st =
     (if i < ploidy
      then phased_for_i ploidy limit callback (i + 1) (phased_for_j limit callback i 0 st)
      else st)"
  by pat_completeness auto
termination
  by (relation "measure (\<lambda>(ploidy, limit, callback, i, st). nat (ploidy - i))") auto

definition bgen_enumerate_phased :: "int \<Rightarrow> int \<Rightarrow> 's callback \<Rightarrow> bool \<Rightarrow> 's \<Rightarrow> 's" where
  "bgen_enumerate_phased ploidy alleles callback drop_last s =
     (let ind = - 1;
          limit = alleles - (if drop_last then 1 else 0)
      in snd (phased_for_i ploidy limit callback 0 (ind, s)))"

text \<open>
  The recursive lambda \<^verbatim>\<open>enumerate_unphased(used, depth)\<close> and its \<^verbatim>\<open>for\<close> loop.
  The captured variables \<^verbatim>\<open>ploidy\<close>, \<^verbatim>\<open>alleles\<close>, \<^verbatim>\<open>drop_last\<close>,
  \<^verbatim>\<open>callback\<close> and \<^verbatim>\<open>ind\<close> are parameters; the captured vector
  \<^verbatim>\<open>allele_counts\<close> is threaded through together with the callback's state. A write
  to the vector outside its bounds is the error \<open>OutOfBounds\<close>.
\<close>

function enumerate_unphased ::
    "int \<Rightarrow> int \<Rightarrow> bool \<Rightarrow> 's callback \<Rightarrow> int \<Rightarrow> int \<Rightarrow> int \<Rightarrow> int list \<times> 's \<Rightarrow> error + int list \<times> 's"
  and enumerate_unphased_for ::
    "int \<Rightarrow> int \<Rightarrow> bool \<Rightarrow> 's callback \<Rightarrow> int \<Rightarrow> int \<Rightarrow> int \<Rightarrow> int \<Rightarrow> int \<Rightarrow> int list \<times> 's \<Rightarrow> error + int list \<times> 's"
where
  "enumerate_unphased ploidy alleles drop_last callback ind used depth (allele_counts, s) =
     (let limit = ploidy - used - (if depth = alleles - 1 \<and> drop_last then 1 else 0)
      in if depth \<noteq> 0
         then enumerate_unphased_for ploidy alleles drop_last callback ind used depth limit 0
                (allele_counts, s)
         else if length allele_counts = 0 then Inl OutOfBounds
         else (let allele_counts = allele_counts[0 := ploidy - used]
               in Inr (allele_counts, callback allele_counts ind s)))"
| "enumerate_unphased_for ploidy alleles drop_last callback ind used depth limit i (allele_counts, s) =
     (if i \<le> limit
      then if depth < 0 \<or> int (length allele_counts) \<le> depth then Inl OutOfBounds
           else (case enumerate_unphased ploidy alleles drop_last callback ind (used + i) (depth - 1)
                        (allele_counts[nat depth := i], s) of
                   Inl e \<Rightarrow> Inl e
                 | Inr st \<Rightarrow>
                     enumerate_unphased_for ploidy alleles drop_last callback ind used depth limit
                       (i + 1) st)
      else Inr (allele_counts, s))"
  by pat_completeness auto
termination
  by (relation "measures
        [\<lambda>x. case x of Inl (p, a, dl, cb, ind, used, depth, st) \<Rightarrow> nat (depth + 1)
                      | Inr (p, a, dl, cb, ind, used, depth, limit, i, st) \<Rightarrow> nat (depth + 1),
         \<lambda>x. case x of Inl _ \<Rightarrow> 1 | Inr _ \<Rightarrow> 0,
         \<lambda>x. case x of Inl _ \<Rightarrow> 0
                      | Inr (p, a, dl, cb, ind, used, depth, limit, i, st) \<Rightarrow> nat (limit + 1 - i)]")
     auto

text \<open>
  \<^verbatim>\<open>std::vector<int> allele_counts(alleles)\<close> holds \<^verbatim>\<open>alleles\<close> zeros; a negative
  count converts to a size beyond \<^verbatim>\<open>max_size()\<close> and the constructor throws.
\<close>

definition bgen_enumerate_unphased :: "int \<Rightarrow> int \<Rightarrow> 's callback \<Rightarrow> bool \<Rightarrow> 's \<Rightarrow> error + 's" where
  "bgen_enumerate_unphased ploidy alleles callback drop_last s =
     (let ind = - 1
      in if alleles < 0 then Inl LengthError
         else (case enumerate_unphased ploidy alleles drop_last callback ind 0 (alleles - 1)
                      (replicate (nat alleles) 0, s) of
                 Inl e \<Rightarrow> Inl e
               | Inr (allele_counts, s') \<Rightarrow> Inr s'))"

subsection \<open>Empty cells and the end of a genotype block\<close>

definition write_zero :: "plink_state callback" where
  "write_zero v ind s = s\<lparr>codec_buf := codec_buf s @ [0]\<rparr>"

definition bgen_empty_cell :: "int \<Rightarrow> int \<Rightarrow> bool \<Rightarrow> plink_state \<Rightarrow> error + plink_state" where
  "bgen_empty_cell ploidy alleles phased s =
     (if phased then Inr (bgen_enumerate_phased ploidy alleles write_zero True s)
      else bgen_enumerate_unphased ploidy alleles write_zero True s)"

text \<open>
  \<^verbatim>\<open>codec_buf[pos] = c\<close> on a \<^verbatim>\<open>std::string\<close>: defined for \<^verbatim>\<open>pos < size()\<close>, and
  for \<^verbatim>\<open>pos == size()\<close> when the terminator is overwritten with zero (the string is
  then unchanged); undefined otherwise.
\<close>

definition string_set :: "byte list \<Rightarrow> nat \<Rightarrow> byte \<Rightarrow> error + byte list" where
  "string_set buf pos c =
     (if pos < length buf then Inr (buf[pos := c])
      else if pos = length buf \<and> c = 0 then Inr buf
      else Inl OutOfBounds)"

text \<open>
  \<^verbatim>\<open>TileDBUtils::compress\<close> belongs to the storage library; the bytes it returns for
  a buffer are the parameter \<open>compress\<close>, and \<^verbatim>\<open>data_size\<close> is their number.
\<close>

definition bgen_finish_gt :: "(byte list \<Rightarrow> byte list) \<Rightarrow> plink_state \<Rightarrow> error + plink_state" where
  "bgen_finish_gt compress s =
     (case string_set (codec_buf s) 7 (min_ploidy s) of
        Inl e \<Rightarrow> Inl e
      | Inr buf7 \<Rightarrow>
     (case string_set buf7 8 (max_ploidy s) of
        Inl e \<Rightarrow> Inl e
      | Inr buf \<Rightarrow>
          (let uncompressed_size = length buf;
               out =
                 (if compression s \<noteq> 0
                  then (let data = compress buf;
                            data_size = length data;
                            total_size = data_size + 4
                        in le32 (of_nat total_size) @ le32 (of_nat uncompressed_size) @ data)
                  else le32 (of_nat uncompressed_size) @ buf)
           in Inr (s\<lparr>bgen_file := bgen_file s @ out, codec_buf := [], bgen_gt_size := 0,
                      min_ploidy := 64, max_ploidy := - 1\<rparr>))))"

subsection \<open>Sequences of emitter operations\<close>

text \<open>
  The operations of an emitter after its construction, as far as this header defines
  them, and their execution in sequence; the first error ends the run.
\<close>

datatype emitter_op =
  Write_to_bed byte
| Flush_to_bed
| Bgen_empty_cell int int bool
| Bgen_finish_gt

fun emitter_step :: "(byte list \<Rightarrow> byte list) \<Rightarrow> emitter_op \<Rightarrow> plink_state \<Rightarrow> error + plink_state" where
  "emitter_step compress (Write_to_bed x) s = Inr (write_to_bed s x)"
| "emitter_step compress Flush_to_bed s = Inr (flush_to_bed s)"
| "emitter_step compress (Bgen_empty_cell ploidy alleles phased) s =
     bgen_empty_cell ploidy alleles phased s"
| "emitter_step compress Bgen_finish_gt s = bgen_finish_gt compress s"

fun emitter_run :: "(byte list \<Rightarrow> byte list) \<Rightarrow> emitter_op list \<Rightarrow> plink_state \<Rightarrow> error + plink_state" where
  "emitter_run compress [] s = Inr s"
| "emitter_run compress (x # xs) s =
     (case emitter_step compress x s of
        Inl e \<Rightarrow> Inl e
      | Inr s' \<Rightarrow> emitter_run compress xs s')"

subsection \<open>Descriptions of the enumerations\<close>

text \<open>
  The effect of a list of callback invocations, each given by its two arguments, on the
  callback's state.
\<close>

definition apply_calls :: "'s callback \<Rightarrow> (int list \<times> int) list \<Rightarrow> 's \<Rightarrow> 's" where
  "apply_calls callback calls s = fold (\<lambda>(v, ind). callback v ind) calls s"

text \<open>
  The phased slots: the pairs \<open>[i, j]\<close> with \<open>0 \<le> i < ploidy\<close> and \<open>0 \<le> j < limit\<close>,
  the haplotype index \<open>i\<close> outermost.
\<close>

definition phased_slots :: "int \<Rightarrow> int \<Rightarrow> int list list" where
  "phased_slots ploidy limit =
     concat (map (\<lambda>i. map (\<lambda>j. [i, j]) [0..limit - 1]) [0..ploidy - 1])"

text \<open>
  Colexicographic order on vectors: the last coordinate is the most significant one.
  \<open>colex_vectors d n\<close> lists the vectors of \<open>d + 1\<close> coordinates, the last taken from
  \<open>0\<close> to \<open>n\<close> in the outermost position, each followed inwards by the next lower
  coordinate, the first coordinate being what is left of \<open>n\<close>.
\<close>

definition colex_less :: "int list \<Rightarrow> int list \<Rightarrow> bool" where
  "colex_less u v \<longleftrightarrow> (rev u, rev v) \<in> lexord {(a, b). a < b}"

fun colex_vectors :: "nat \<Rightarrow> int \<Rightarrow> int list list" where
  "colex_vectors 0 n = [[n]]"
| "colex_vectors (Suc d) n =
     concat (map (\<lambda>i. map (\<lambda>w. w @ [i]) (colex_vectors d (n - i))) [0..n])"

text \<open>
  The unphased slots for at least two alleles: the last coordinate runs from \<open>0\<close> to
  \<open>ploidy\<close>, or to \<open>ploidy - 1\<close> when the last slot is dropped, and the coordinates
  before it are enumerated in colexicographic order with what is left of the ploidy.
\<close>

definition unphased_slots :: "int \<Rightarrow> int \<Rightarrow> bool \<Rightarrow> int list list" where
  "unphased_slots ploidy alleles drop_last =
     concat (map (\<lambda>j. map (\<lambda>w. w @ [j]) (colex_vectors (nat (alleles - 2)) (ploidy - j)))
               [0..ploidy - (if drop_last then 1 else 0)])"

text \<open>
  The order in the words of C1, read literally: a recursive enumeration of the vectors
  \<open>(a\<^sub>1, \<dots>, a\<^sub>K)\<close> with sum \<open>P\<close> in which \<open>a\<^sub>2\<close> is the outermost and the K-th
  coordinate \<open>a\<^sub>K\<close> the innermost loop, \<open>a\<^sub>1\<close> being what is left of \<open>P\<close>.
\<close>

fun innermost_last_tails :: "nat \<Rightarrow> int \<Rightarrow> int list list" where
  "innermost_last_tails 0 n = [[]]"
| "innermost_last_tails (Suc m) n =
     concat (map (\<lambda>i. map (\<lambda>t. i # t) (innermost_last_tails m (n - i))) [0..n])"

definition innermost_last_order :: "nat \<Rightarrow> int \<Rightarrow> int list list" where
  "innermost_last_order K P = map (\<lambda>t. (P - sum_list t) # t) (innermost_last_tails (K - 1) P)"

section \<open>Properties\<close>

subsection \<open>The full-scan range\<close>

text \<open>
  C7, as stated, fails on the earlier version of the header: there
  \<^verbatim>\<open>SCAN_FULL\<close>, the default of the column and of the row ranges, ends at
  \<open>2\<^sup>6\<^sup>3 - 1\<close>, not at \<open>2\<^sup>6\<^sup>3 - 2\<close>.
\<close>

theorem C7_counterexample: "ranges_denote SCAN_FULL_earlier \<noteq> [(0, 2 ^ 63 - 2)]"
  by (simp add: ranges_denote_def SCAN_FULL_earlier_def INT64_MAX_def)

text \<open>
  C7 (amended): in the current version of the header \<^verbatim>\<open>SCAN_FULL\<close>, the default
  column ranges of \<^verbatim>\<open>query_variants\<close> and \<^verbatim>\<open>query_variant_calls\<close>, denotes the
  single range \<open>[0, 2\<^sup>6\<^sup>3 - 2]\<close>; in the earlier version, where it is also the default
  of the row ranges, it denotes the single range \<open>[0, 2\<^sup>6\<^sup>3 - 1]\<close>.
\<close>

theorem C7_SCAN_FULL_by_version:
  "ranges_denote SCAN_FULL = [(0, 2 ^ 63 - 2)] \<and>
   ranges_denote SCAN_FULL_earlier = [(0, 2 ^ 63 - 1)]"
  by (simp add: ranges_denote_def SCAN_FULL_def SCAN_FULL_earlier_def INT64_MAX_def)

subsection \<open>Offset validation of the typed accessors\<close>

text \<open>
  C8: for a field with \<open>num_elements\<close> elements, each of \<^verbatim>\<open>int_value_at\<close>,
  \<^verbatim>\<open>float_value_at\<close> and \<^verbatim>\<open>char_value_at\<close> returns the element read at the offset
  when the offset is below \<open>num_elements\<close>, and raises the GenomicsDB exception whose
  message names the field and the offset when it is not; so each succeeds exactly when
  the offset is below \<open>num_elements\<close>.
\<close>

theorem C8_accessors_validate_offset:
  "(offset < num_elements f \<longrightarrow>
      int_value_at f offset = Inr (read32 (ptr f) (4 * unat offset)) \<and>
      float_value_at f offset = Inr (read32 (ptr f) (4 * unat offset)) \<and>
      char_value_at f offset = Inr (ptr f (unat offset))) \<and>
   (num_elements f \<le> offset \<longrightarrow>
      int_value_at f offset = Inl (GenomicsDBException (offset_message f offset)) \<and>
      float_value_at f offset = Inl (GenomicsDBException (offset_message f offset)) \<and>
      char_value_at f offset = Inl (GenomicsDBException (offset_message f offset))) \<and>
   (isl (int_value_at f offset) \<longleftrightarrow> \<not> offset < num_elements f) \<and>
   (isl (float_value_at f offset) \<longleftrightarrow> \<not> offset < num_elements f) \<and>
   (isl (char_value_at f offset) \<longleftrightarrow> \<not> offset < num_elements f)"
  by (auto simp: int_value_at_def float_value_at_def char_value_at_def check_offset_def
        offset_message_def)

theorem C8_accessors_validate_offset_witness:
  "int_value_at \<lparr>name = ''GT'', ptr = (\<lambda>a. 0), num_elements = 2\<rparr> 1 = Inr 0 \<and>
   char_value_at \<lparr>name = ''GT'', ptr = (\<lambda>a. 0), num_elements = 2\<rparr> 1 = Inr 0 \<and>
   float_value_at \<lparr>name = ''GT'', ptr = (\<lambda>a. 0), num_elements = 2\<rparr> 12 =
     Inl (GenomicsDBException ''Genomic Field=GT offset=12 greater than number of elements'')"
proof -
  let ?f = "\<lparr>name = ''GT'', ptr = (\<lambda>a. 0), num_elements = 2\<rparr>"
  have a: "(1 :: 64 word) < num_elements ?f" by simp
  have b: "num_elements ?f \<le> (12 :: 64 word)" by simp
  have m: "offset_message ?f 12 = ''Genomic Field=GT offset=12 greater than number of elements''"
    by (simp add: offset_message_def digit_char_def)
  from a C8_accessors_validate_offset [of 1 ?f]
  have "int_value_at ?f 1 = Inr (read32 (ptr ?f) (4 * unat (1 :: 64 word)))"
    and "char_value_at ?f 1 = Inr (ptr ?f (unat (1 :: 64 word)))" by blast+
  moreover from b C8_accessors_validate_offset [of 12 ?f]
  have "float_value_at ?f 12 = Inl (GenomicsDBException (offset_message ?f 12))" by blast
  ultimately show ?thesis by (simp add: m read32_def)
qed

subsection \<open>The BGEN header written at construction\<close>

lemma from_le32_le32: "from_le32 (le32 w) = w"
proof (rule bit_word_eqI)
  fix n assume n: "n < LENGTH(32)"
  consider "n < 8" | "8 \<le> n" "n < 16" | "16 \<le> n" "n < 24" | "24 \<le> n" "n < 32"
    using n by fastforce
  then show "bit (from_le32 (le32 w)) n \<longleftrightarrow> bit w n"
    by cases (auto simp: from_le32_def le32_def bit_simps)
qed

lemma length_le32: "length (le32 w) = 4"
  by (simp add: le32_def)

text \<open>
  C3: the constructor leaves exactly 24 bytes in the BGEN file: the offset 20, the header
  length 20, a zero for M, a zero for N (each a 4-byte little-endian word), the magic
  \<open>b g e n\<close>, and a 4-byte flags word whose bits 0-1 are the compression code, whose
  bits 2-5 are the layout version 2 and whose bit 31 (sample identifiers present) is set.
  The compression code is one of 0, 1, 2; at construction the member holds its default 0.
\<close>

theorem C3_bgen_header:
  "compression s \<in> {0, 1, 2} \<Longrightarrow>
   (let f = bgen_file (GenomicsDBPlinkProcessor s);
        flags = from_le32 (take 4 (drop 20 f))
    in length f = 24 \<and>
       take 4 f = le32 20 \<and>
       take 4 (drop 4 f) = le32 20 \<and>
       take 4 (drop 8 f) = le32 0 \<and>
       take 4 (drop 12 f) = le32 0 \<and>
       take 4 (drop 16 f) = [0x62, 0x67, 0x65, 0x6E] \<and>
       flags AND 3 = compression s \<and>
       drop_bit 2 flags AND 15 = 2 \<and>
       bit flags 31)"
  by (auto simp: GenomicsDBPlinkProcessor_def Let_def le32_def from_le32_def)

theorem C3_bgen_header_witness:
  "compression (member_defaults 64 0 7) \<in> {0, 1, 2} \<and>
   bgen_file (GenomicsDBPlinkProcessor (member_defaults 64 0 7)) =
     [20, 0, 0, 0, 20, 0, 0, 0, 0, 0, 0, 0, 0, 0, 0, 0, 0x62, 0x67, 0x65, 0x6E, 8, 0, 0, 0x80] \<and>
   length (bgen_file (GenomicsDBPlinkProcessor (member_defaults 64 0 7))) = 24"
  using C3_bgen_header [of "member_defaults 64 0 7"]
  by (simp add: member_defaults_def GenomicsDBPlinkProcessor_def Let_def le32_def)

subsection \<open>The end of a genotype block\<close>

text \<open>
  C2: on a buffered block of at least nine bytes, \<^verbatim>\<open>bgen_finish_gt\<close> stores
  \<^verbatim>\<open>min_ploidy\<close> at index 7 and \<^verbatim>\<open>max_ploidy\<close> at index 8 of the buffer and then
  appends to the BGEN file: with compression, the 4-byte total size (compressed size plus
  4), the 4-byte uncompressed size (the buffer length) and the compressed bytes; without
  compression, the 4-byte uncompressed size and the raw buffer. The sizes are written as
  4-byte words, so they are taken modulo \<open>2\<^sup>3\<^sup>2\<close>.
\<close>

theorem C2_bgen_finish_gt:
  "9 \<le> length (codec_buf s) \<Longrightarrow>
   (let buf = (codec_buf s)[7 := min_ploidy s, 8 := max_ploidy s];
        out = (if compression s \<noteq> 0
               then le32 (of_nat (length (compress buf) + 4))
                      @ le32 (of_nat (length (codec_buf s))) @ compress buf
               else le32 (of_nat (length (codec_buf s))) @ buf)
    in buf ! 7 = min_ploidy s \<and> buf ! 8 = max_ploidy s \<and> length buf = length (codec_buf s) \<and>
       bgen_finish_gt compress s =
         Inr (s\<lparr>bgen_file := bgen_file s @ out, codec_buf := [], bgen_gt_size := 0,
                min_ploidy := 64, max_ploidy := - 1\<rparr>))"
  by (simp add: bgen_finish_gt_def string_set_def Let_def)


theorem C2_bgen_finish_gt_witness:
  "9 \<le> length (codec_buf ((member_defaults 2 3 0)\<lparr>compression := 1, codec_buf := [1, 0, 0, 0, 2, 0, 9, 9, 9, 2, 0, 8, 200]\<rparr>)) \<and>
   map_sum id bgen_file (bgen_finish_gt (\<lambda>b. take 9 b)
     ((member_defaults 2 3 0)\<lparr>compression := 1, codec_buf := [1, 0, 0, 0, 2, 0, 9, 9, 9, 2, 0, 8, 200]\<rparr>)) =
     Inr ([13, 0, 0, 0, 13, 0, 0, 0] @ [1, 0, 0, 0, 2, 0, 9, 2, 3])"
  using C2_bgen_finish_gt [of "(member_defaults 2 3 0)\<lparr>compression := 1, codec_buf := [1, 0, 0, 0, 2, 0, 9, 9, 9, 2, 0, 8, 200]\<rparr>" "\<lambda>b. take 9 b"]
  by (simp add: member_defaults_def Let_def le32_def)

subsection \<open>BED packing\<close>

lemma code_cases: "x \<le> (3 :: byte) \<Longrightarrow> x = 0 \<or> x = 1 \<or> x = 2 \<or> x = 3"
proof -
  assume "x \<le> 3"
  then have "unat x \<le> 3" by (simp add: word_le_nat_alt)
  then have "unat x = unat (0 :: byte) \<or> unat x = unat (1 :: byte) \<or>
             unat x = unat (2 :: byte) \<or> unat x = unat (3 :: byte)"
    by simp arith
  then show ?thesis by (simp only: word_unat_eq_iff [symmetric])
qed

lemma pack_add_eq_or:
  assumes "a \<le> 3" "b \<le> 3" "c \<le> 3" "d \<le> (3 :: byte)"
  shows "a + push_bit 2 b + push_bit 4 c + push_bit 6 d =
         a OR push_bit 2 b OR push_bit 4 c OR push_bit 6 d"
  using code_cases [OF assms(1)] code_cases [OF assms(2)]
        code_cases [OF assms(3)] code_cases [OF assms(4)]
  by (elim disjE; simp)

lemma write1:
  "bed_buf s = 0 \<Longrightarrow> bed_buf_state s = 0 \<Longrightarrow>
   write_to_bed s a = s\<lparr>bed_buf := a, bed_buf_state := 1\<rparr>"
  by (simp add: write_to_bed_def Let_def)

lemma write2:
  "bed_buf s = 0 \<Longrightarrow> bed_buf_state s = 0 \<Longrightarrow>
   write_to_bed (write_to_bed s a) b = s\<lparr>bed_buf := a + push_bit 2 b, bed_buf_state := 2\<rparr>"
  by (simp add: write_to_bed_def Let_def)

lemma write3:
  "bed_buf s = 0 \<Longrightarrow> bed_buf_state s = 0 \<Longrightarrow>
   write_to_bed (write_to_bed (write_to_bed s a) b) c =
     s\<lparr>bed_buf := a + push_bit 2 b + push_bit 4 c, bed_buf_state := 3\<rparr>"
  by (simp add: write_to_bed_def Let_def)

lemma write4_sum:
  "bed_buf s = 0 \<Longrightarrow> bed_buf_state s = 0 \<Longrightarrow>
   write_to_bed (write_to_bed (write_to_bed (write_to_bed s a) b) c) d =
     s\<lparr>bed_file := bed_file s @ [a + push_bit 2 b + push_bit 4 c + push_bit 6 d]\<rparr>"
  by (simp add: write_to_bed_def Let_def)

lemma write4:
  assumes "a \<le> 3" "b \<le> 3" "c \<le> 3" "d \<le> 3" "bed_buf s = 0" "bed_buf_state s = 0"
  shows "write_to_bed (write_to_bed (write_to_bed (write_to_bed s a) b) c) d =
         s\<lparr>bed_file := bed_file s @ [a OR push_bit 2 b OR push_bit 4 c OR push_bit 6 d]\<rparr>"
  using assms by (simp add: write4_sum pack_add_eq_or)

lemma write3_flush:
  assumes "a \<le> 3" "b \<le> 3" "c \<le> 3" "bed_buf s = 0" "bed_buf_state s = 0"
  shows "flush_to_bed (write_to_bed (write_to_bed (write_to_bed s a) b) c) =
         s\<lparr>bed_file := bed_file s @ [a OR push_bit 2 b OR push_bit 4 c]\<rparr>"
  using assms pack_add_eq_or [of a b c 0] by (simp add: write3 flush_to_bed_def)

lemma write2_flush:
  assumes "a \<le> 3" "b \<le> 3" "bed_buf s = 0" "bed_buf_state s = 0"
  shows "flush_to_bed (write_to_bed (write_to_bed s a) b) =
         s\<lparr>bed_file := bed_file s @ [a OR push_bit 2 b]\<rparr>"
  using assms pack_add_eq_or [of a b 0 0] by (simp add: write2 flush_to_bed_def)

lemma write1_flush:
  assumes "bed_buf s = 0" "bed_buf_state s = 0"
  shows "flush_to_bed (write_to_bed s a) = s\<lparr>bed_file := bed_file s @ [a]\<rparr>"
  using assms by (simp add: write1 flush_to_bed_def)

lemma write0_flush:
  assumes "bed_buf_state s = 0"
  shows "flush_to_bed s = s"
  using assms by (simp add: flush_to_bed_def)

lemma writes_then_flush:
  "\<forall>x\<in>set xs. x \<le> 3 \<Longrightarrow> bed_buf s = 0 \<Longrightarrow> bed_buf_state s = 0 \<Longrightarrow>
   flush_to_bed (foldl write_to_bed s xs) = s\<lparr>bed_file := bed_file s @ bed_pack_spec xs\<rparr>"
proof (induction xs arbitrary: s rule: bed_pack_spec.induct)
  case (1 a b c d xs)
  let ?s = "s\<lparr>bed_file := bed_file s @ [a OR push_bit 2 b OR push_bit 4 c OR push_bit 6 d]\<rparr>"
  from "1.prems" have w: "write_to_bed (write_to_bed (write_to_bed (write_to_bed s a) b) c) d = ?s"
    by (intro write4) simp_all
  from "1.prems" have "flush_to_bed (foldl write_to_bed ?s xs) = ?s\<lparr>bed_file := bed_file ?s @ bed_pack_spec xs\<rparr>"
    by (intro "1.IH") simp_all
  then show ?case by (simp add: w)
next
  case (2 a b c)
  then show ?case by (simp add: write3_flush)
next
  case (3 a b)
  then show ?case by (simp add: write2_flush)
next
  case (4 a)
  then show ?case by (simp add: write1_flush)
next
  case 5
  then show ?case by (simp add: write0_flush)
qed

lemma short_writes:
  "bed_buf_state s = 0 \<Longrightarrow> length ys < 4 \<Longrightarrow> bed_file (foldl write_to_bed s ys) = bed_file s"
proof -
  assume s: "bed_buf_state s = 0" and "length ys < 4"
  then consider "ys = []" | a where "ys = [a]" | a b where "ys = [a, b]"
    | a b c where "ys = [a, b, c]"
    by (cases ys rule: bed_pack_spec.cases) auto
  then show ?thesis
    using s by cases (simp_all add: write_to_bed_def Let_def)
qed

lemma length_bed_pack_spec: "length (bed_pack_spec xs) = (length xs + 3) div 4"
  by (induction xs rule: bed_pack_spec.induct) simp_all

lemma bytes_emitted_when_full:
  "\<forall>x\<in>set xs. x \<le> 3 \<Longrightarrow> bed_buf s = 0 \<Longrightarrow> bed_buf_state s = 0 \<Longrightarrow> n \<le> length xs \<Longrightarrow>
   bed_file (foldl write_to_bed s (take n xs)) = bed_file s @ take (n div 4) (bed_pack_spec xs)"
proof (induction xs arbitrary: s n rule: bed_pack_spec.induct)
  case (1 a b c d xs)
  show ?case
  proof (cases "n < 4")
    case True
    then have "length (take n (a # b # c # d # xs)) < 4" by simp
    with "1.prems"(3) have "bed_file (foldl write_to_bed s (take n (a # b # c # d # xs))) = bed_file s"
      by (rule short_writes)
    moreover from True have "n div 4 = 0" by simp
    ultimately show ?thesis by (simp only: take_0 append_Nil2)
  next
    case False
    define m where "m = n - 4"
    from False have n: "n = Suc (Suc (Suc (Suc m)))" by (simp add: m_def)
    have d: "n div 4 = Suc (m div 4)" unfolding n by simp
    let ?s = "s\<lparr>bed_file := bed_file s @ [a OR push_bit 2 b OR push_bit 4 c OR push_bit 6 d]\<rparr>"
    from "1.prems" have w: "write_to_bed (write_to_bed (write_to_bed (write_to_bed s a) b) c) d = ?s"
      by (intro write4) simp_all
    from "1.prems" n have "bed_file (foldl write_to_bed ?s (take m xs)) =
        bed_file ?s @ take (m div 4) (bed_pack_spec xs)"
      by (intro "1.IH") simp_all
    then show ?thesis unfolding d by (simp add: n w)
  qed
next
  case (2 a b c)
  have "length (take n [a, b, c]) < 4" by simp
  with "2.prems"(3) have "bed_file (foldl write_to_bed s (take n [a, b, c])) = bed_file s"
    by (rule short_writes)
  moreover from "2.prems"(4) have "n div 4 = 0" by simp
  ultimately show ?case by (simp only: take_0 append_Nil2)
next
  case (3 a b)
  have "length (take n [a, b]) < 4" by simp
  with "3.prems"(3) have "bed_file (foldl write_to_bed s (take n [a, b])) = bed_file s"
    by (rule short_writes)
  moreover from "3.prems"(4) have "n div 4 = 0" by simp
  ultimately show ?case by (simp only: take_0 append_Nil2)
next
  case (4 a)
  have "length (take n [a]) < 4" by simp
  with "4.prems"(3) have "bed_file (foldl write_to_bed s (take n [a])) = bed_file s"
    by (rule short_writes)
  moreover from "4.prems"(4) have "n div 4 = 0" by simp
  ultimately show ?case by (simp only: take_0 append_Nil2)
next
  case 5
  then show ?case by simp
qed

lemma unpack_byte4:
  assumes "a \<le> 3" "b \<le> 3" "c \<le> 3" "d \<le> 3"
  shows "bed_unpack_byte (a OR push_bit 2 b OR push_bit 4 c OR push_bit 6 d) = [a, b, c, d]"
  using code_cases [OF assms(1)] code_cases [OF assms(2)]
        code_cases [OF assms(3)] code_cases [OF assms(4)]
  by (elim disjE; simp add: bed_unpack_byte_def)

lemma replicate_2: "replicate 2 x = [x, x]"
  by (simp add: numeral_2_eq_2)

lemma replicate_3: "replicate 3 x = [x, x, x]"
  by (simp add: numeral_3_eq_3)

lemma unpack_pack:
  "\<forall>x\<in>set xs. x \<le> 3 \<Longrightarrow>
   bed_unpack_spec (bed_pack_spec xs) = xs @ replicate ((4 - length xs mod 4) mod 4) 0"
proof (induction xs rule: bed_pack_spec.induct)
  case (1 a b c d xs)
  have "length (a # b # c # d # xs) = length xs + 4" by simp
  then have l: "length (a # b # c # d # xs) mod 4 = length xs mod 4"
    by (simp only: mod_add_self2)
  from "1.prems" have u: "bed_unpack_byte (a OR push_bit 2 b OR push_bit 4 c OR push_bit 6 d) = [a, b, c, d]"
    by (intro unpack_byte4) simp_all
  from "1.prems" have "bed_unpack_spec (bed_pack_spec xs) = xs @ replicate ((4 - length xs mod 4) mod 4) 0"
    by (intro "1.IH") simp
  then show ?case
    unfolding l by (simp add: bed_unpack_spec_def u)
next
  case (2 a b c)
  then have "bed_unpack_byte (a OR push_bit 2 b OR push_bit 4 c) = [a, b, c, 0]"
    using unpack_byte4 [of a b c 0] by simp
  moreover have "(4 - length [a, b, c] mod 4) mod 4 = Suc 0" by simp
  ultimately show ?case by (simp add: bed_unpack_spec_def)
next
  case (3 a b)
  then have "bed_unpack_byte (a OR push_bit 2 b) = [a, b, 0, 0]"
    using unpack_byte4 [of a b 0 0] by simp
  then show ?case by (simp add: bed_unpack_spec_def replicate_2)
next
  case (4 a)
  then have "bed_unpack_byte a = [a, 0, 0, 0]"
    using unpack_byte4 [of a 0 0 0] by simp
  then show ?case by (simp add: bed_unpack_spec_def replicate_3)
next
  case 5
  then show ?case by (simp add: bed_unpack_spec_def)
qed

text \<open>
  C6: starting from an empty one-byte buffer, writing a sequence of 2-bit codes with
  \<^verbatim>\<open>write_to_bed\<close> and then calling \<^verbatim>\<open>flush_to_bed\<close> appends to the BED file
  exactly the packed bytes of the sequence (four codes per byte, the i-th code of a byte
  in bit pair i, the last byte padded with zero bits) and leaves the buffer empty again;
  after the first \<open>n\<close> writes exactly \<open>n div 4\<close> bytes have been emitted, one whenever a
  byte became full; and unpacking the written bytes gives the codes back, followed by
  the zero padding.
\<close>

theorem C6_bed_packing:
  assumes "\<forall>x\<in>set xs. x \<le> 3" and "bed_buf s = 0" and "bed_buf_state s = 0"
  shows "flush_to_bed (foldl write_to_bed s xs) = s\<lparr>bed_file := bed_file s @ bed_pack_spec xs\<rparr> \<and>
         (\<forall>n\<le>length xs. bed_file (foldl write_to_bed s (take n xs)) =
              bed_file s @ take (n div 4) (bed_pack_spec xs)) \<and>
         length (bed_pack_spec xs) = (length xs + 3) div 4 \<and>
         bed_unpack_spec (bed_pack_spec xs) = xs @ replicate ((4 - length xs mod 4) mod 4) 0 \<and>
         take (length xs) (bed_unpack_spec (bed_pack_spec xs)) = xs"
  using assms
  by (simp add: writes_then_flush bytes_emitted_when_full length_bed_pack_spec unpack_pack)

theorem C6_bed_packing_witness:
  "flush_to_bed (foldl write_to_bed (member_defaults 0 0 0) [2, 3, 1, 0, 3, 2]) =
     (member_defaults 0 0 0)\<lparr>bed_file := [0x1E, 0x0B]\<rparr> \<and>
   bed_file (foldl write_to_bed (member_defaults 0 0 0) (take 5 [2, 3, 1, 0, 3, 2])) = [0x1E] \<and>
   bed_unpack_spec [0x1E, 0x0B] = [2, 3, 1, 0, 3, 2, 0, 0]"
proof -
  let ?s = "member_defaults 0 0 0" and ?xs = "[2, 3, 1, 0, 3, 2] :: byte list"
  have p: "bed_pack_spec ?xs = [0x1E, 0x0B]" by simp
  have h: "\<forall>x\<in>set ?xs. x \<le> 3" "bed_buf ?s = 0" "bed_buf_state ?s = 0"
    by (simp_all add: member_defaults_def)
  note t = C6_bed_packing [OF h]
  from t have "flush_to_bed (foldl write_to_bed ?s ?xs) = ?s\<lparr>bed_file := bed_file ?s @ bed_pack_spec ?xs\<rparr>"
    by blast
  moreover from t have "bed_file (foldl write_to_bed ?s (take 5 ?xs)) =
      bed_file ?s @ take (5 div 4) (bed_pack_spec ?xs)"
    by (elim conjE allE [of _ 5]) simp
  moreover from t have "bed_unpack_spec (bed_pack_spec ?xs) = ?xs @ replicate ((4 - length ?xs mod 4) mod 4) 0"
    by blast
  ultimately show ?thesis
    unfolding p by (simp add: member_defaults_def replicate_2)
qed

subsection \<open>The callback invocations of the two enumerations\<close>

lemma apply_calls_Nil: "apply_calls cb [] s = s"
  by (simp add: apply_calls_def)

lemma apply_calls_Cons: "apply_calls cb ((v, k) # cs) s = apply_calls cb cs (cb v k s)"
  by (simp add: apply_calls_def)

lemma apply_calls_append: "apply_calls cb (cs @ ds) s = apply_calls cb ds (apply_calls cb cs s)"
  by (simp add: apply_calls_def)

lemma apply_calls_record: "apply_calls record_call cs tr = tr @ cs"
  by (induction cs arbitrary: tr) (auto simp: apply_calls_def record_call_def)

lemma phased_for_j_calls:
  "phased_for_j limit cb i j (ind, s) =
     (ind + int (nat (limit - j)),
      apply_calls cb (zip (map (\<lambda>jj. [i, jj]) [j..limit - 1]) [ind + 1..ind + int (nat (limit - j))]) s)"
proof (induction "nat (limit - j)" arbitrary: j ind s)
  case 0
  then have "\<not> j < limit" by simp
  then show ?case by (simp add: apply_calls_Nil)
next
  case (Suc n)
  then have lt: "j < limit" and n: "n = nat (limit - (j + 1))" by simp_all
  have a: "[j..limit - 1] = j # [j + 1..limit - 1]"
    using lt by (simp add: upto_rec1)
  have b: "[ind + 1..ind + int (nat (limit - j))] = (ind + 1) # [ind + 1 + 1..ind + 1 + int (nat (limit - (j + 1)))]"
    using lt by (subst upto_rec1) (simp_all add: algebra_simps)
  have c: "ind + int (nat (limit - j)) = ind + 1 + int (nat (limit - (j + 1)))"
    using lt by simp
  show ?case
    apply (subst phased_for_j.simps)
    apply (simp only: lt if_True Suc.hyps(1) [OF n])
    apply (simp only: a b list.map zip_Cons_Cons apply_calls_Cons)
    apply (simp only: c)
    done
qed

lemma upto_append_consecutive:
  "0 \<le> m \<Longrightarrow> 0 \<le> n \<Longrightarrow> [a + 1..a + m + n] = [a + 1..a + m] @ [a + m + 1..a + m + (n :: int)]"
proof -
  assume m: "0 \<le> m" and n: "0 \<le> n"
  show ?thesis
  proof (cases "m = 0")
    case True
    then show ?thesis by simp
  next
    case False
    with m n have "a + 1 \<le> a + m" "a + m \<le> a + m + n" by simp_all
    then show ?thesis by (rule upto_split2)
  qed
qed

lemma phased_for_i_calls:
  "phased_for_i ploidy limit cb i (ind, s) =
     (let V = concat (map (\<lambda>ii. map (\<lambda>jj. [ii, jj]) [0..limit - 1]) [i..ploidy - 1])
      in (ind + int (length V), apply_calls cb (zip V [ind + 1..ind + int (length V)]) s))"
proof (induction "nat (ploidy - i)" arbitrary: i ind s)
  case 0
  then have "\<not> i < ploidy" by simp
  then show ?case by (simp add: apply_calls_Nil)
next
  case (Suc n)
  then have lt: "i < ploidy" and n: "n = nat (ploidy - (i + 1))" by simp_all
  let ?row = "map (\<lambda>jj. [i, jj]) [0..limit - 1]"
  let ?V' = "concat (map (\<lambda>ii. map (\<lambda>jj. [ii, jj]) [0..limit - 1]) [i + 1..ploidy - 1])"
  have a: "[i..ploidy - 1] = i # [i + 1..ploidy - 1]"
    using lt by (simp add: upto_rec1)
  have lr: "int (length ?row) = int (nat limit)" by simp
  have sp: "[ind + 1..ind + int (nat limit) + int (length ?V')] =
            [ind + 1..ind + int (nat limit)] @ [ind + int (nat limit) + 1..ind + int (nat limit) + int (length ?V')]"
    by (rule upto_append_consecutive) simp_all
  have j: "phased_for_j limit cb i 0 (ind, s) =
      (ind + int (nat limit), apply_calls cb (zip ?row [ind + 1..ind + int (nat limit)]) s)"
    using phased_for_j_calls [of limit cb i 0 ind s] by simp
  have z: "zip (?row @ ?V') ([ind + 1..ind + int (nat limit)] @ [ind + int (nat limit) + 1..ind + int (nat limit) + int (length ?V')])
         = zip ?row [ind + 1..ind + int (nat limit)] @ zip ?V' [ind + int (nat limit) + 1..ind + int (nat limit) + int (length ?V')]"
    by (rule zip_append) simp
  show ?case
    apply (subst phased_for_i.simps)
    apply (simp only: lt if_True j Suc.hyps(1) [OF n] Let_def)
    apply (simp only: a list.map concat.simps length_append of_nat_add lr)
    apply (simp only: add.assoc [symmetric] sp z apply_calls_append)
    done
qed

lemma bgen_enumerate_phased_calls:
  "bgen_enumerate_phased ploidy alleles cb drop_last s =
     (let V = phased_slots ploidy (alleles - (if drop_last then 1 else 0))
      in apply_calls cb (zip V [0..int (length V) - 1]) s)"
  using phased_for_i_calls [of ploidy "alleles - (if drop_last then 1 else 0)" cb 0 "- 1" s]
  by (simp add: bgen_enumerate_phased_def phased_slots_def Let_def)

lemma length_phased_slots: "length (phased_slots ploidy limit) = nat ploidy * nat limit"
proof -
  have "length (concat (map (\<lambda>i. map (\<lambda>j. [i, j]) [0..limit - 1]) js)) = length js * nat limit" for js :: "int list"
    by (induction js) simp_all
  then show ?thesis by (simp add: phased_slots_def)
qed


declare enumerate_unphased.simps [simp del] enumerate_unphased_for.simps [simp del]

lemma unphased_loop_calls:
  assumes U: "\<And>used ac s. d < length ac \<Longrightarrow>
      \<exists>ac'. enumerate_unphased P K dl cb ind used (int d) (ac, s) =
              Inr (ac', apply_calls cb
                     (map (\<lambda>w. (w @ drop (Suc d) ac, ind)) (colex_vectors d (P - used))) s) \<and>
            length ac' = length ac \<and> drop (Suc d) ac' = drop (Suc d) ac"
  shows "Suc d < length ac \<Longrightarrow>
      \<exists>ac'. enumerate_unphased_for P K dl cb ind used (int (Suc d)) limit i (ac, s) =
              Inr (ac', apply_calls cb
                     (map (\<lambda>w. (w @ drop (Suc (Suc d)) ac, ind))
                        (concat (map (\<lambda>j. map (\<lambda>w. w @ [j]) (colex_vectors d (P - used - j)))
                                   [i..limit]))) s) \<and>
            length ac' = length ac \<and> drop (Suc (Suc d)) ac' = drop (Suc (Suc d)) ac"
proof (induction "nat (limit + 1 - i)" arbitrary: i ac s)
  case 0
  then have "\<not> i \<le> limit" by simp
  then show ?case
    by (subst enumerate_unphased_for.simps) (simp add: apply_calls_Nil)
next
  case (Suc n)
  then have le: "i \<le> limit" and n: "n = nat (limit + 1 - (i + 1))" by simp_all
  let ?rest = "drop (Suc (Suc d)) ac"
  let ?ac1 = "ac[Suc d := i]"
  have len1: "d < length ?ac1" using Suc.prems by simp
  have "?ac1 = take (Suc d) ac @ i # ?rest"
    using Suc.prems by (rule upd_conv_take_nth_drop)
  moreover have "length (take (Suc d) ac) = Suc d"
    using Suc.prems by simp
  ultimately have d1: "drop (Suc d) ?ac1 = i # ?rest"
    by simp
  from U [OF len1, of "used + i" s] obtain ac2 where
    e: "enumerate_unphased P K dl cb ind (used + i) (int d) (?ac1, s) =
          Inr (ac2, apply_calls cb
                 (map (\<lambda>w. (w @ i # ?rest, ind)) (colex_vectors d (P - (used + i)))) s)"
    and l2: "length ac2 = length ac" and d2: "drop (Suc d) ac2 = i # ?rest"
    by (auto simp: d1)
  have "drop (Suc (Suc d)) ac2 = tl (drop (Suc d) ac2)"
    by (simp add: drop_Suc tl_drop)
  then have d2': "drop (Suc (Suc d)) ac2 = ?rest"
    by (simp only: d2 list.sel)
  from Suc.prems l2 have len2: "Suc d < length ac2" by simp
  from Suc.hyps(1) [OF n len2, of "apply_calls cb
                 (map (\<lambda>w. (w @ i # ?rest, ind)) (colex_vectors d (P - (used + i)))) s"]
  obtain ac3 where
    f: "enumerate_unphased_for P K dl cb ind used (int (Suc d)) limit (i + 1)
          (ac2, apply_calls cb
                 (map (\<lambda>w. (w @ i # ?rest, ind)) (colex_vectors d (P - (used + i)))) s) =
        Inr (ac3, apply_calls cb
               (map (\<lambda>w. (w @ ?rest, ind))
                  (concat (map (\<lambda>j. map (\<lambda>w. w @ [j]) (colex_vectors d (P - used - j)))
                             [i + 1..limit])))
               (apply_calls cb
                 (map (\<lambda>w. (w @ i # ?rest, ind)) (colex_vectors d (P - (used + i)))) s))"
    and l3: "length ac3 = length ac2" and d3: "drop (Suc (Suc d)) ac3 = drop (Suc (Suc d)) ac2"
    by (auto simp: d2')
  have up: "[i..limit] = i # [i + 1..limit]" using le by (rule upto_rec1)
  have inb: "\<not> (int (Suc d) < 0 \<or> int (length ac) \<le> int (Suc d))"
    using Suc.prems by simp
  have dm: "int (Suc d) - 1 = int d" "nat (int (Suc d)) = Suc d" by simp_all
  have "enumerate_unphased_for P K dl cb ind used (int (Suc d)) limit i (ac, s) =
        Inr (ac3, apply_calls cb
               (map (\<lambda>w. (w @ ?rest, ind))
                  (concat (map (\<lambda>j. map (\<lambda>w. w @ [j]) (colex_vectors d (P - used - j)))
                             [i..limit]))) s)"
    apply (subst enumerate_unphased_for.simps)
    apply (simp only: le inb if_True if_False dm e sum.case f)
    apply (simp add: up apply_calls_append o_def diff_diff_eq)
    done
  with l3 l2 d3 d2' show ?case by simp
qed

lemma unphased_depth_calls:
  "int d < K - 1 \<Longrightarrow> d < length ac \<Longrightarrow>
   \<exists>ac'. enumerate_unphased P K dl cb ind used (int d) (ac, s) =
           Inr (ac', apply_calls cb
                  (map (\<lambda>w. (w @ drop (Suc d) ac, ind)) (colex_vectors d (P - used))) s) \<and>
         length ac' = length ac \<and> drop (Suc d) ac' = drop (Suc d) ac"
proof (induction d arbitrary: used ac s)
  case 0
  then obtain x xs where ac: "ac = x # xs" by (cases ac) auto
  show ?case
    by (subst enumerate_unphased.simps) (simp add: ac apply_calls_def Let_def)
next
  case (Suc d)
  from Suc.prems(1) have dK: "int d < K - 1" by simp
  from Suc.prems(1) have ne: "int (Suc d) \<noteq> K - 1" "int (Suc d) \<noteq> 0" by simp_all
  have "\<exists>ac'. enumerate_unphased_for P K dl cb ind used (int (Suc d)) (P - used - 0) 0 (ac, s) =
              Inr (ac', apply_calls cb
                     (map (\<lambda>w. (w @ drop (Suc (Suc d)) ac, ind))
                        (concat (map (\<lambda>j. map (\<lambda>w. w @ [j]) (colex_vectors d (P - used - j)))
                                   [0..P - used - 0]))) s) \<and>
            length ac' = length ac \<and> drop (Suc (Suc d)) ac' = drop (Suc (Suc d)) ac"
    by (rule unphased_loop_calls [OF Suc.IH [OF dK] Suc.prems(2)])
  then show ?case
    apply (subst enumerate_unphased.simps)
    apply (simp only: ne Let_def if_True if_False simp_thms not_False_eq_True)
    apply simp
    done
qed

lemma bgen_enumerate_unphased_calls_aux:
  "bgen_enumerate_unphased P (int (Suc (Suc d))) cb dl s =
     Inr (apply_calls cb (map (\<lambda>v. (v, - 1)) (unphased_slots P (int (Suc (Suc d))) dl)) s)"
proof -
  let ?K = "int (Suc (Suc d))"
  let ?ac = "replicate (nat ?K) (0 :: int)"
  let ?limit = "P - 0 - (if dl then 1 else 0)"
  have U: "\<And>used ac s. d < length ac \<Longrightarrow>
      \<exists>ac'. enumerate_unphased P ?K dl cb (- 1) used (int d) (ac, s) =
              Inr (ac', apply_calls cb
                     (map (\<lambda>w. (w @ drop (Suc d) ac, - 1)) (colex_vectors d (P - used))) s) \<and>
            length ac' = length ac \<and> drop (Suc d) ac' = drop (Suc d) ac"
    by (rule unphased_depth_calls) simp
  have len: "Suc d < length ?ac" by simp
  have sl: "unphased_slots P ?K dl =
      concat (map (\<lambda>j. map (\<lambda>w. w @ [j]) (colex_vectors d (P - 0 - j))) [0..?limit])"
    by (simp add: unphased_slots_def)
  have dr: "drop (Suc (Suc d)) ?ac = []" by simp
  from unphased_loop_calls [OF U len, of 0 ?limit 0 s]
  obtain ac' where
    "enumerate_unphased_for P ?K dl cb (- 1) 0 (int (Suc d)) ?limit 0 (?ac, s) =
       Inr (ac', apply_calls cb (map (\<lambda>v. (v, - 1)) (unphased_slots P ?K dl)) s)"
    unfolding sl dr append_Nil2 by blast
  moreover have "?K - 1 = int (Suc d)" "int (Suc d) \<noteq> 0" by simp_all
  ultimately have "enumerate_unphased P ?K dl cb (- 1) 0 (?K - 1) (?ac, s) =
       Inr (ac', apply_calls cb (map (\<lambda>v. (v, - 1)) (unphased_slots P ?K dl)) s)"
    by (subst enumerate_unphased.simps) (simp only: Let_def simp_thms if_True if_False)
  then show ?thesis
    by (simp add: bgen_enumerate_unphased_def Let_def del: of_nat_Suc)
qed

lemma bgen_enumerate_unphased_calls:
  assumes K: "2 \<le> K"
  shows "bgen_enumerate_unphased P K cb dl s =
         Inr (apply_calls cb (map (\<lambda>v. (v, - 1)) (unphased_slots P K dl)) s)"
proof -
  from K have "K = int (Suc (Suc (nat (K - 2))))" by simp
  then show ?thesis using bgen_enumerate_unphased_calls_aux [of P "nat (K - 2)" cb dl s] by simp
qed

lemma bgen_enumerate_unphased_single:
  "bgen_enumerate_unphased P 1 cb dl s = Inr (cb [P] (- 1) s)"
proof -
  have "enumerate_unphased P 1 dl cb (- 1) 0 0 ([0], s) = Inr ([P], cb [P] (- 1) s)"
    by (subst enumerate_unphased.simps) (simp add: Let_def)
  then show ?thesis
    by (simp add: bgen_enumerate_unphased_def Let_def)
qed

lemma phased_record_calls:
  "bgen_enumerate_phased P K record_call dl [] =
     zip (phased_slots P (K - (if dl then 1 else 0)))
         [0..int (length (phased_slots P (K - (if dl then 1 else 0)))) - 1]"
  by (simp only: bgen_enumerate_phased_calls Let_def apply_calls_record append_Nil)

lemma length_upto_from_0: "length [0..int n - 1] = n"
  by simp

lemma phased_record_calls_fst:
  "map fst (bgen_enumerate_phased P K record_call dl []) = phased_slots P (K - (if dl then 1 else 0))"
  unfolding phased_record_calls by (rule map_fst_zip) (simp only: length_upto_from_0)

lemma phased_record_calls_snd:
  "map snd (bgen_enumerate_phased P K record_call dl []) =
     [0..int (length (phased_slots P (K - (if dl then 1 else 0)))) - 1]"
  unfolding phased_record_calls by (rule map_snd_zip) (simp only: length_upto_from_0)

lemma phased_record_calls_length:
  "length (bgen_enumerate_phased P K record_call dl []) = nat P * nat (K - (if dl then 1 else 0))"
proof -
  have "length (map fst (bgen_enumerate_phased P K record_call dl [])) =
        nat P * nat (K - (if dl then 1 else 0))"
    by (simp only: phased_record_calls_fst length_phased_slots)
  then show ?thesis by simp
qed

text \<open>
  C4: for a ploidy \<open>P \<ge> 0\<close> and \<open>K \<ge> 1\<close> alleles, \<^verbatim>\<open>bgen_enumerate_phased\<close> with
  \<^verbatim>\<open>drop_last = true\<close> invokes its callback exactly \<open>P \<times> (K - 1)\<close> times, once for
  each pair of a haplotype index \<open>0 \<le> i < P\<close> and an allele index \<open>0 \<le> j < K - 1\<close>, the
  haplotype index in the outer loop (the K-th allele is left out for every haplotype).
\<close>

theorem C4_phased_enumeration:
  "0 \<le> P \<Longrightarrow> 1 \<le> K \<Longrightarrow>
   (let calls = bgen_enumerate_phased P K record_call True []
    in length calls = nat P * nat (K - 1) \<and>
       map fst calls = concat (map (\<lambda>i. map (\<lambda>j. [i, j]) [0..K - 2]) [0..P - 1]))"
  using phased_record_calls_length [of P K True] phased_record_calls_fst [of P K True]
  by (simp add: phased_slots_def Let_def)

theorem C4_phased_enumeration_witness:
  "(0 :: int) \<le> 2 \<and> (1 :: int) \<le> 3 \<and>
   length (bgen_enumerate_phased 2 3 record_call True []) = 4 \<and>
   map fst (bgen_enumerate_phased 2 3 record_call True []) = [[0, 0], [0, 1], [1, 0], [1, 1]]"
proof -
  have "concat (map (\<lambda>i. map (\<lambda>j. [i, j]) [0..3 - 2]) [0..2 - 1]) =
        [[0, 0], [0, 1], [1, 0], [1, 1 :: int]]"
    by code_simp
  with C4_phased_enumeration [of 2 3] show ?thesis
    by (simp add: Let_def)
qed

text \<open>
  C10: for \<open>P \<ge> 1\<close> and \<open>K \<ge> 2\<close>, every callback invocation of
  \<^verbatim>\<open>bgen_enumerate_unphased\<close> receives \<open>-1\<close> as its slot index, whereas
  \<^verbatim>\<open>bgen_enumerate_phased\<close> passes the consecutive indices \<open>0, 1, 2, \<dots>\<close> in the order
  of the enumeration.
\<close>

theorem C10_slot_index:
  "1 \<le> P \<Longrightarrow> 2 \<le> K \<Longrightarrow>
   (\<exists>calls. bgen_enumerate_unphased P K record_call dl [] = Inr calls \<and>
            (\<forall>c\<in>set calls. snd c = - 1)) \<and>
   map snd (bgen_enumerate_phased P K record_call dl []) =
     [0..int (length (bgen_enumerate_phased P K record_call dl [])) - 1]"
  by (auto simp: bgen_enumerate_unphased_calls apply_calls_record phased_record_calls_snd
        phased_record_calls_length length_phased_slots)

theorem C10_slot_index_witness:
  "(1 :: int) \<le> 2 \<and> (2 :: int) \<le> 3 \<and>
   bgen_enumerate_unphased 2 3 record_call True [] =
     Inr [([2, 0, 0], - 1), ([1, 1, 0], - 1), ([0, 2, 0], - 1), ([1, 0, 1], - 1), ([0, 1, 1], - 1)] \<and>
   map snd (bgen_enumerate_phased 2 3 record_call True []) = [0, 1, 2, 3]"
proof -
  have u: "bgen_enumerate_unphased 2 3 record_call True [] =
     Inr [([2, 0, 0], - 1), ([1, 1, 0], - 1), ([0, 2, 0], - 1), ([1, 0, 1], - 1), ([0, 1, 1], - 1)]"
    by code_simp
  have l: "length (bgen_enumerate_phased 2 3 record_call True []) = 4"
    by (simp add: phased_record_calls_length)
  have "[0..int 4 - 1] = [0, 1, 2, 3]" by code_simp
  with C10_slot_index [of 2 3 True] u l show ?thesis by simp
qed

subsection \<open>The unphased enumeration in colexicographic order\<close>

lemma colex_vectors_zero: "colex_vectors d 0 = [replicate (Suc d) 0]"
proof (induction d)
  case 0
  show ?case by simp
next
  case (Suc d)
  have "replicate (Suc d) (0 :: int) @ [0] = replicate (Suc (Suc d)) 0"
    by (simp add: replicate_append_same)
  with Suc show ?case by simp
qed

lemma colex_less_snoc:
  "colex_less (u @ [a]) (v @ [b]) \<longleftrightarrow> a < b \<or> (a = b \<and> colex_less u v)"
  by (simp add: colex_less_def)

lemma colex_less_irrefl: "\<not> colex_less v v"
  by (simp add: colex_less_def lexord_irreflexive)

lemma sorted_colex_blocks:
  assumes f: "\<And>j. sorted_wrt colex_less (f j)"
  shows "sorted_wrt (<) js \<Longrightarrow>
         sorted_wrt colex_less (concat (map (\<lambda>j. map (\<lambda>w. w @ [j]) (f j)) js))"
proof (induction js)
  case Nil
  show ?case by simp
next
  case (Cons j js)
  have blk: "sorted_wrt colex_less (map (\<lambda>w. w @ [j]) (f j))"
    using f [of j] by (simp add: sorted_wrt_map colex_less_snoc)
  from Cons have rest: "sorted_wrt colex_less (concat (map (\<lambda>j. map (\<lambda>w. w @ [j]) (f j)) js))"
    and lt: "\<forall>k\<in>set js. j < k" by simp_all
  have "colex_less x y"
    if "x \<in> set (map (\<lambda>w. w @ [j]) (f j))"
      and "y \<in> set (concat (map (\<lambda>j. map (\<lambda>w. w @ [j]) (f j)) js))" for x y
  proof -
    from that(1) obtain w where x: "x = w @ [j]" by auto
    from that(2) obtain k w' where "k \<in> set js" and y: "y = w' @ [k]" by auto
    with lt have "j < k" by simp
    then show ?thesis by (simp add: x y colex_less_snoc)
  qed
  with blk rest show ?case by (simp add: sorted_wrt_append)
qed

lemma sorted_colex_vectors: "sorted_wrt colex_less (colex_vectors d n)"
proof (induction d arbitrary: n)
  case 0
  show ?case by simp
next
  case (Suc d)
  have "sorted_wrt colex_less
          (concat (map (\<lambda>j. map (\<lambda>w. w @ [j]) (colex_vectors d (n - j))) [0..n]))"
    by (rule sorted_colex_blocks) (simp_all add: Suc)
  then show ?case by simp
qed

lemma sorted_colex_distinct: "sorted_wrt colex_less vs \<Longrightarrow> distinct vs"
  by (induction vs) (auto simp: colex_less_irrefl)

lemma set_colex_vectors:
  "0 \<le> n \<Longrightarrow>
   set (colex_vectors d n) = {v. length v = Suc d \<and> (\<forall>a\<in>set v. 0 \<le> a) \<and> sum_list v = n}"
proof (induction d arbitrary: n)
  case 0
  show ?case
  proof (rule set_eqI)
    fix v :: "int list"
    have "length v = Suc 0 \<longleftrightarrow> (\<exists>a. v = [a])" by (cases v) auto
    with 0 show "v \<in> set (colex_vectors 0 n) \<longleftrightarrow>
        v \<in> {v. length v = Suc 0 \<and> (\<forall>a\<in>set v. 0 \<le> a) \<and> sum_list v = n}"
      by auto
  qed
next
  case (Suc d)
  show ?case
  proof (rule set_eqI)
    fix v :: "int list"
    show "v \<in> set (colex_vectors (Suc d) n) \<longleftrightarrow>
        v \<in> {v. length v = Suc (Suc d) \<and> (\<forall>a\<in>set v. 0 \<le> a) \<and> sum_list v = n}"
    proof
      assume "v \<in> set (colex_vectors (Suc d) n)"
      then obtain j w where j: "0 \<le> j" "j \<le> n" and w: "w \<in> set (colex_vectors d (n - j))"
        and v: "v = w @ [j]" by auto
      from j have "0 \<le> n - j" by simp
      from w Suc.IH [OF this] have "length w = Suc d" "\<forall>a\<in>set w. 0 \<le> a" "sum_list w = n - j"
        by auto
      with j v show "v \<in> {v. length v = Suc (Suc d) \<and> (\<forall>a\<in>set v. 0 \<le> a) \<and> sum_list v = n}"
        by auto
    next
      assume "v \<in> {v. length v = Suc (Suc d) \<and> (\<forall>a\<in>set v. 0 \<le> a) \<and> sum_list v = n}"
      then have len: "length v = Suc (Suc d)" and nn: "\<forall>a\<in>set v. 0 \<le> a" and sm: "sum_list v = n"
        by auto
      from len have ne: "v \<noteq> []" by auto
      define w j where "w = butlast v" and "j = last v"
      from ne have v: "v = w @ [j]" by (simp add: w_def j_def)
      from nn v have nw: "\<forall>a\<in>set w. 0 \<le> a" and j0: "0 \<le> j" by auto
      from nw have "0 \<le> sum_list w" by (simp add: sum_list_nonneg)
      with sm v have jn: "j \<le> n" and sw: "sum_list w = n - j" by auto
      from len v have lw: "length w = Suc d" by simp
      from j0 jn have "0 \<le> n - j" by simp
      from Suc.IH [OF this] lw nw sw have "w \<in> set (colex_vectors d (n - j))" by auto
      with j0 jn v show "v \<in> set (colex_vectors (Suc d) n)" by auto
    qed
  qed
qed

lemma sum_choose_shift: "(\<Sum>k\<le>N. (k + d) choose d) = (N + Suc d) choose Suc d"
  by (induction N) simp_all

lemma sum_list_upto_choose:
  "0 \<le> n \<Longrightarrow> (\<Sum>j\<leftarrow>[0..n]. (nat (n - j) + d) choose d) = (nat n + Suc d) choose Suc d"
proof -
  assume n: "0 \<le> n"
  have "(\<Sum>j\<leftarrow>[0..n]. (nat (n - j) + d) choose d) = (\<Sum>j\<in>{0..n}. (nat (n - j) + d) choose d)"
    by (simp add: sum_list_distinct_conv_sum_set)
  also have "\<dots> = (\<Sum>k\<le>nat n. (k + d) choose d)"
    by (rule sum.reindex_bij_witness [where i = "\<lambda>k. n - int k" and j = "\<lambda>j. nat (n - j)"])
       (use n in auto)
  also have "\<dots> = (nat n + Suc d) choose Suc d"
    by (rule sum_choose_shift)
  finally show ?thesis .
qed

lemma length_colex_vectors:
  "0 \<le> n \<Longrightarrow> length (colex_vectors d n) = (nat n + d) choose d"
proof (induction d arbitrary: n)
  case 0
  show ?case by simp
next
  case (Suc d)
  have "length (colex_vectors (Suc d) n) =
        (\<Sum>j\<leftarrow>[0..n]. length (colex_vectors d (n - j)))"
    by (simp add: length_concat o_def)
  also have "\<dots> = (\<Sum>j\<leftarrow>[0..n]. (nat (n - j) + d) choose d)"
    by (rule arg_cong [where f = sum_list], rule map_cong) (simp_all add: Suc.IH)
  also have "\<dots> = (nat n + Suc d) choose Suc d"
    using Suc.prems by (rule sum_list_upto_choose)
  finally show ?case .
qed

lemma colex_vectors_split_last:
  "0 \<le> P \<Longrightarrow>
   colex_vectors (Suc d) P =
     unphased_slots P (int (Suc (Suc d))) True @ [replicate (Suc d) 0 @ [P]]"
proof -
  assume "0 \<le> P"
  then have "[0..P] = [0..P - 1] @ [P]" by (rule upto_rec2)
  then show ?thesis
    by (simp add: unphased_slots_def colex_vectors_zero)
qed

text \<open>
  C1, as stated, fails in two ways. With a single allele the callback is invoked once, on
  the vector \<open>(P)\<close>, where the claim counts \<open>C(P, 0) - 1 = 0\<close> invocations. And for
  three alleles the K-th coordinate is the outermost, not the innermost, loop: for
  \<open>P = 2\<close> the invocations are \<open>(2,0,0), (1,1,0), (0,2,0), (1,0,1), (0,1,1)\<close>, whereas
  the enumeration with the K-th coordinate innermost is
  \<open>(2,0,0), (1,0,1), (1,1,0), (0,1,1), (0,2,0)\<close>.
\<close>

theorem C1_counterexample:
  "map_sum id length (bgen_enumerate_unphased 1 1 record_call True []) \<noteq>
     Inr ((nat (1 + 1 - 1) choose nat (1 - 1)) - 1) \<and>
   map_sum id (map fst) (bgen_enumerate_unphased 2 3 record_call True []) \<noteq>
     Inr (remove1 [0, 0, 2] (innermost_last_order 3 2))"
proof -
  have "bgen_enumerate_unphased 1 1 record_call True [] = Inr [([1], - 1)]"
    by code_simp
  moreover have "bgen_enumerate_unphased 2 3 record_call True [] =
     Inr [([2, 0, 0], - 1), ([1, 1, 0], - 1), ([0, 2, 0], - 1), ([1, 0, 1], - 1), ([0, 1, 1], - 1)]"
    by code_simp
  moreover have "remove1 [0, 0, 2] (innermost_last_order 3 2) =
     [[2, 0, 0], [1, 0, 1], [1, 1, 0], [0, 1, 1], [0, 2, 0]]"
    by code_simp
  ultimately show ?thesis by simp
qed

text \<open>
  C1 (amended): for a ploidy \<open>P \<ge> 1\<close> and \<open>K \<ge> 2\<close> alleles,
  \<^verbatim>\<open>bgen_enumerate_unphased\<close> with \<^verbatim>\<open>drop_last = true\<close> invokes its callback exactly
  \<open>C(P + K - 1, K - 1) - 1\<close> times. The vectors it passes, followed by the omitted
  vector \<open>(0, \<dots>, 0, P)\<close>, are strictly increasing in colexicographic order (the K-th
  coordinate is the most significant one: it varies in the outermost loop) and are
  exactly the vectors of \<open>K\<close> non-negative integers with sum \<open>P\<close>, each once.
\<close>

theorem C1_unphased_enumeration:
  assumes P: "1 \<le> P" and K: "2 \<le> K"
  shows "\<exists>calls. bgen_enumerate_unphased P K record_call True [] = Inr calls \<and>
           length calls = (nat (P + K - 1) choose nat (K - 1)) - 1 \<and>
           (let vs = map fst calls @ [replicate (nat (K - 1)) 0 @ [P]]
            in sorted_wrt colex_less vs \<and> distinct vs \<and>
               set vs = {v. length v = nat K \<and> (\<forall>a\<in>set v. 0 \<le> a) \<and> sum_list v = P})"
proof -
  define d where "d = nat (K - 2)"
  from K have Kd: "K = int (Suc (Suc d))" by (simp add: d_def)
  from P have P0: "0 \<le> P" by simp
  let ?slots = "unphased_slots P K True"
  let ?calls = "map (\<lambda>v. (v, - 1 :: int)) ?slots"
  let ?vs = "?slots @ [replicate (Suc d) 0 @ [P]]"
  have run: "bgen_enumerate_unphased P K record_call True [] = Inr ?calls"
    using K by (simp add: bgen_enumerate_unphased_calls apply_calls_record)
  have all: "colex_vectors (Suc d) P = ?vs"
    unfolding Kd using P0 by (rule colex_vectors_split_last)
  have "length (colex_vectors (Suc d) P) = (nat P + Suc d) choose Suc d"
    using P0 by (rule length_colex_vectors)
  then have len: "length ?slots = ((nat P + Suc d) choose Suc d) - 1"
    unfolding all by simp
  have n1: "nat (P + K - 1) = nat P + Suc d" "nat (K - 1) = Suc d" "nat K = Suc (Suc d)"
    using P0 by (simp_all add: Kd nat_add_distrib)
  have srt: "sorted_wrt colex_less ?vs"
    using sorted_colex_vectors [of "Suc d" P] unfolding all .
  then have dst: "distinct ?vs" by (rule sorted_colex_distinct)
  have st: "set ?vs = {v. length v = Suc (Suc d) \<and> (\<forall>a\<in>set v. 0 \<le> a) \<and> sum_list v = P}"
    using set_colex_vectors [OF P0, of "Suc d"] unfolding all .
  have fst: "map fst ?calls = ?slots" by (simp add: o_def)
  show ?thesis
    apply (rule exI [of _ ?calls])
    apply (simp only: run fst Let_def n1 length_map len)
    apply (simp only: srt dst st simp_thms)
    done
qed

theorem C1_unphased_enumeration_witness:
  "(1 :: int) \<le> 2 \<and> (2 :: int) \<le> 3 \<and>
   bgen_enumerate_unphased 2 3 record_call True [] =
     Inr [([2, 0, 0], - 1), ([1, 1, 0], - 1), ([0, 2, 0], - 1), ([1, 0, 1], - 1), ([0, 1, 1], - 1)] \<and>
   (nat (2 + 3 - 1) choose nat (3 - 1)) - 1 = (5 :: nat)"
proof -
  have u: "bgen_enumerate_unphased 2 3 record_call True [] =
     Inr [([2, 0, 0], - 1), ([1, 1, 0], - 1), ([0, 2, 0], - 1), ([1, 0, 1], - 1), ([0, 1, 1], - 1)]"
    by code_simp
  from C1_unphased_enumeration [of 2 3]
  obtain calls where "bgen_enumerate_unphased 2 3 record_call True [] = Inr calls"
    and "length calls = (nat (2 + 3 - 1) choose nat (3 - 1)) - 1" by auto
  with u show ?thesis by auto
qed

subsection \<open>Empty cells\<close>

lemma write_zero_apply: "write_zero v k s = s\<lparr>codec_buf := codec_buf s @ [0]\<rparr>"
  by (simp add: write_zero_def)

lemma apply_calls_write_zero:
  "apply_calls write_zero calls s = s\<lparr>codec_buf := codec_buf s @ replicate (length calls) 0\<rparr>"
proof (induction calls arbitrary: s)
  case Nil
  show ?case by (simp add: apply_calls_def)
next
  case (Cons c calls)
  obtain v k where c: "c = (v, k)" by (cases c)
  have "apply_calls write_zero (c # calls) s = apply_calls write_zero calls (write_zero v k s)"
    by (simp only: c apply_calls_Cons)
  also have "\<dots> = (write_zero v k s)\<lparr>codec_buf :=
      codec_buf (write_zero v k s) @ replicate (length calls) 0\<rparr>"
    by (rule Cons.IH)
  also have "\<dots> = s\<lparr>codec_buf := codec_buf s @ replicate (length (c # calls)) 0\<rparr>"
    by (simp add: write_zero_apply replicate_append_same)
  finally show ?case .
qed

lemma bgen_enumerate_unphased_no_alleles:
  "bgen_enumerate_unphased P 0 cb dl s =
     (if 0 \<le> P - (if dl then 1 else 0) then Inl OutOfBounds else Inr s)"
proof -
  have "enumerate_unphased P 0 dl cb (- 1) 0 (- 1) ([], s) =
        (if 0 \<le> P - (if dl then 1 else 0) then Inl OutOfBounds else Inr ([], s))"
    by (subst enumerate_unphased.simps, subst enumerate_unphased_for.simps) (simp add: Let_def)
  then show ?thesis
    by (simp add: bgen_enumerate_unphased_def Let_def)
qed

lemma bgen_enumerate_unphased_result:
  assumes "bgen_enumerate_unphased P K cb dl s = Inr s'"
  shows "\<exists>calls. s' = apply_calls cb calls s"
proof -
  consider "K < 0" | "K = 0" | "K = 1" | "2 \<le> K" by linarith
  then show ?thesis
  proof cases
    case 1
    with assms show ?thesis by (simp add: bgen_enumerate_unphased_def Let_def)
  next
    case 2
    with assms have "s' = s"
      by (simp add: bgen_enumerate_unphased_no_alleles split: if_splits)
    then have "s' = apply_calls cb [] s" by (simp add: apply_calls_Nil)
    then show ?thesis ..
  next
    case 3
    with assms have "s' = apply_calls cb [([P], - 1)] s"
      by (simp add: bgen_enumerate_unphased_single apply_calls_Cons apply_calls_Nil)
    then show ?thesis ..
  next
    case 4
    with assms have "s' = apply_calls cb (map (\<lambda>v. (v, - 1)) (unphased_slots P K dl)) s"
      by (simp add: bgen_enumerate_unphased_calls)
    then show ?thesis ..
  qed
qed

lemma bgen_empty_cell_result:
  assumes "bgen_empty_cell ploidy alleles phased s = Inr s'"
  shows "\<exists>n. s' = s\<lparr>codec_buf := codec_buf s @ replicate n 0\<rparr>"
proof (cases phased)
  case True
  with assms have "s' = apply_calls write_zero
      (zip (phased_slots ploidy (alleles - 1)) [0..int (length (phased_slots ploidy (alleles - 1))) - 1]) s"
    by (simp add: bgen_empty_cell_def bgen_enumerate_phased_calls Let_def)
  then show ?thesis by (simp only: apply_calls_write_zero) blast
next
  case False
  with assms have "bgen_enumerate_unphased ploidy alleles write_zero True s = Inr s'"
    by (simp add: bgen_empty_cell_def)
  then obtain calls where "s' = apply_calls write_zero calls s"
    by (auto dest: bgen_enumerate_unphased_result)
  then show ?thesis by (simp only: apply_calls_write_zero) blast
qed

lemma bgen_empty_cell_phased_zeros:
  "bgen_empty_cell P K True s =
     Inr (s\<lparr>codec_buf := codec_buf s @ replicate (nat P * nat (K - 1)) 0\<rparr>)"
  by (simp add: bgen_empty_cell_def bgen_enumerate_phased_calls Let_def apply_calls_write_zero
        length_phased_slots)

lemma bgen_empty_cell_unphased_zeros:
  assumes "0 \<le> P" "2 \<le> K"
  shows "bgen_empty_cell P K False s =
     Inr (s\<lparr>codec_buf := codec_buf s @ replicate ((nat (P + K - 1) choose nat (K - 1)) - 1) 0\<rparr>)"
proof -
  define d where "d = nat (K - 2)"
  from assms have Kd: "K = int (Suc (Suc d))" by (simp add: d_def)
  have "length (colex_vectors (Suc d) P) = (nat P + Suc d) choose Suc d"
    using assms(1) by (rule length_colex_vectors)
  moreover have "colex_vectors (Suc d) P = unphased_slots P K True @ [replicate (Suc d) 0 @ [P]]"
    unfolding Kd using assms(1) by (rule colex_vectors_split_last)
  ultimately have len: "length (unphased_slots P K True) = ((nat P + Suc d) choose Suc d) - 1"
    by simp
  have n1: "nat (P + K - 1) = nat P + Suc d" "nat (K - 1) = Suc d"
    using assms(1) by (simp_all add: Kd nat_add_distrib)
  show ?thesis
    using assms(2)
    by (simp add: bgen_empty_cell_def bgen_enumerate_unphased_calls apply_calls_write_zero len n1)
qed

text \<open>
  C5: \<^verbatim>\<open>bgen_empty_cell\<close> for an unphased cell with a single allele appends one zero
  byte to the genotype buffer, although the number of probability slots
  \<open>C(P + K - 1, K - 1) - 1\<close> is zero for \<open>K = 1\<close>: the enumeration does not drop the
  last vector \<open>(P)\<close> when it is also the first.
\<close>

theorem C5_empty_cell_single_allele:
  "bgen_empty_cell 2 1 False s = Inr (s\<lparr>codec_buf := codec_buf s @ [0]\<rparr>) \<and>
   (nat (2 + 1 - 1) choose nat (1 - 1)) - 1 = (0 :: nat)"
  by (simp add: bgen_empty_cell_def bgen_enumerate_unphased_single write_zero_apply)

subsection \<open>The BED magic number\<close>

lemma emitter_step_bed_file:
  assumes "emitter_step compress x s = Inr s'"
  shows "\<exists>ys. bed_file s' = bed_file s @ ys"
proof (cases x)
  case (Write_to_bed b)
  with assms show ?thesis by (auto simp: write_to_bed_def Let_def)
next
  case Flush_to_bed
  with assms show ?thesis by (auto simp: flush_to_bed_def)
next
  case (Bgen_empty_cell ploidy alleles phased)
  with assms obtain n where "s' = s\<lparr>codec_buf := codec_buf s @ replicate n 0\<rparr>"
    by (auto dest: bgen_empty_cell_result)
  then show ?thesis by simp
next
  case Bgen_finish_gt
  with assms have "bed_file s' = bed_file s"
    by (auto simp: bgen_finish_gt_def Let_def split: sum.splits)
  then show ?thesis by simp
qed

lemma emitter_run_bed_file:
  "emitter_run compress xs s = Inr s' \<Longrightarrow> \<exists>ys. bed_file s' = bed_file s @ ys"
proof (induction xs arbitrary: s)
  case Nil
  then show ?case by simp
next
  case (Cons x xs)
  then obtain s1 where 1: "emitter_step compress x s = Inr s1"
    and 2: "emitter_run compress xs s1 = Inr s'"
    by (auto split: sum.splits)
  from emitter_step_bed_file [OF 1] obtain ys where "bed_file s1 = bed_file s @ ys" ..
  moreover from Cons.IH [OF 2] obtain zs where "bed_file s' = bed_file s1 @ zs" ..
  ultimately show ?case by simp
qed

text \<open>
  C9: the constructor leaves exactly the three magic bytes \<open>0x6C 0x1B 0x01\<close> in the BED
  file, and after any sequence of emitter operations that follows the construction the
  BED file still begins with them.
\<close>

theorem C9_bed_magic:
  "bed_file (GenomicsDBPlinkProcessor s) = [0x6C, 0x1B, 0x01] \<and>
   (\<forall>s'. emitter_run compress xs (GenomicsDBPlinkProcessor s) = Inr s' \<longrightarrow>
         take 3 (bed_file s') = [0x6C, 0x1B, 0x01])"
proof -
  have m: "bed_file (GenomicsDBPlinkProcessor s) = [0x6C, 0x1B, 0x01]"
    by (simp add: GenomicsDBPlinkProcessor_def Let_def)
  have "take 3 (bed_file s') = [0x6C, 0x1B, 0x01]"
    if "emitter_run compress xs (GenomicsDBPlinkProcessor s) = Inr s'" for s'
  proof -
    from emitter_run_bed_file [OF that] obtain ys where
      "bed_file s' = bed_file (GenomicsDBPlinkProcessor s) @ ys" ..
    then show ?thesis by (simp add: m)
  qed
  with m show ?thesis by blast
qed

theorem C9_bed_magic_witness:
  "emitter_run (\<lambda>b. b) [Write_to_bed 2, Write_to_bed 3, Flush_to_bed, Bgen_empty_cell 2 2 False]
     (GenomicsDBPlinkProcessor (member_defaults 0 0 0)) =
     Inr ((GenomicsDBPlinkProcessor (member_defaults 0 0 0))
            \<lparr>bed_file := [0x6C, 0x1B, 0x01, 0x0E], codec_buf := [0, 0]\<rparr>) \<and>
   take 3 [0x6C, 0x1B, 0x01, 0x0E :: byte] = [0x6C, 0x1B, 0x01]"
proof -
  let ?s = "GenomicsDBPlinkProcessor (member_defaults 0 0 0)"
  let ?s' = "?s\<lparr>bed_file := [0x6C, 0x1B, 0x01, 0x0E], codec_buf := [0, 0]\<rparr>"
  have e: "bgen_empty_cell 2 2 False s = Inr (s\<lparr>codec_buf := codec_buf s @ [0, 0]\<rparr>)" for s
    using bgen_empty_cell_unphased_zeros [of 2 2 s] by (simp add: replicate_2)
  have r: "emitter_run (\<lambda>b. b) [Write_to_bed 2, Write_to_bed 3, Flush_to_bed, Bgen_empty_cell 2 2 False] ?s
      = Inr ?s'"
    by (simp add: e write_to_bed_def flush_to_bed_def Let_def GenomicsDBPlinkProcessor_def
          member_defaults_def)
  from C9_bed_magic [of "member_defaults 0 0 0" "\<lambda>b. b"
      "[Write_to_bed 2, Write_to_bed 3, Flush_to_bed, Bgen_empty_cell 2 2 False]"] r
  have "take 3 (bed_file ?s') = [0x6C, 0x1B, 0x01]" by blast
  with r show ?thesis by simp
qed

end
